theory Spec2Isabelle
  imports Main "HOL-Library.Word"
begin

unbundle bit_operations_syntax

section \<open>Go primitives used by package encode\<close>

text \<open>
  Bytes are 8-bit words, \<open>uint16\<close>, \<open>uint32\<close> and \<open>uint64\<close> are words of their width.
  Go's \<open>int\<close> (lengths, sizes, loop counters, shift amounts before conversion) is modelled
  as \<open>int\<close>: every such value in this package is bounded by a buffer length or by 64, far
  from the 64-bit range. A Go string is its sequence of bytes.
\<close>

type_synonym byte = "8 word"
type_synonym uint16 = "16 word"
type_synonym uint32 = "32 word"
type_synonym uint64 = "64 word"
type_synonym gostring = "byte list"

text \<open>Go's integer division truncates towards zero.\<close>

definition go_div :: "int \<Rightarrow> int \<Rightarrow> int" where
  "go_div a b = sgn a * sgn b * (\<bar>a\<bar> div \<bar>b\<bar>)"

text \<open>The conversion \<open>uint(k)\<close> of an \<open>int\<close> on a 64-bit platform.\<close>

definition go_uint :: "int \<Rightarrow> nat" where
  "go_uint k = nat (k mod 2 ^ 64)"

text \<open>
  Go's shifts take any unsigned count; a count of at least the width gives 0. On words
  \<open>push_bit\<close> and \<open>drop_bit\<close> agree with that, the guard only keeps huge counts away
  from evaluation.
\<close>

definition shl8 :: "byte \<Rightarrow> nat \<Rightarrow> byte" where
  "shl8 b s = (if 8 \<le> s then 0 else push_bit s b)"

definition shl64 :: "uint64 \<Rightarrow> nat \<Rightarrow> uint64" where
  "shl64 x s = (if 64 \<le> s then 0 else push_bit s x)"

definition shr64 :: "uint64 \<Rightarrow> nat \<Rightarrow> uint64" where
  "shr64 x s = (if 64 \<le> s then 0 else drop_bit s x)"

text \<open>\<open>math/bits\<close>: \<open>Len\<close> is the number of bits needed to represent a value, 0 for 0.\<close>

fun bit_length :: "nat \<Rightarrow> nat" where
  "bit_length n = (if n = 0 then 0 else Suc (bit_length (n div 2)))"

declare bit_length.simps [simp del]

definition Len64 :: "uint64 \<Rightarrow> int" where
  "Len64 x = int (bit_length (unat x))"

definition Len8 :: "byte \<Rightarrow> int" where
  "Len8 x = int (bit_length (unat x))"

definition LeadingZeros8 :: "byte \<Rightarrow> int" where
  "LeadingZeros8 x = 8 - Len8 x"

text \<open>The built-in \<open>copy(dst, src)\<close> copies \<open>min(len(dst), len(src))\<close> elements.\<close>

definition go_copy :: "'a list \<Rightarrow> 'a list \<Rightarrow> 'a list" where
  "go_copy dst src = take (min (length dst) (length src)) src @ drop (length src) dst"

text \<open>
  \<open>encoding/binary\<close>, big endian. A write or read on a slice that is too short panics
  (\<open>None\<close>).
\<close>

definition BigEndian_PutUint16 :: "byte list \<Rightarrow> uint16 \<Rightarrow> byte list option" where
  "BigEndian_PutUint16 b v =
     (if length b < 2 then None
      else Some ([ucast (drop_bit 8 v), ucast v] @ drop 2 b))"

definition BigEndian_Uint16 :: "byte list \<Rightarrow> uint16" where
  "BigEndian_Uint16 b = ucast (b ! 1) OR push_bit 8 (ucast (b ! 0))"

definition BigEndian_PutUint32 :: "byte list \<Rightarrow> uint32 \<Rightarrow> byte list option" where
  "BigEndian_PutUint32 b v =
     (if length b < 4 then None
      else Some ([ucast (drop_bit 24 v), ucast (drop_bit 16 v), ucast (drop_bit 8 v), ucast v]
                 @ drop 4 b))"

definition BigEndian_Uint32 :: "byte list \<Rightarrow> uint32" where
  "BigEndian_Uint32 b =
     ucast (b ! 3) OR push_bit 8 (ucast (b ! 2)) OR push_bit 16 (ucast (b ! 1))
       OR push_bit 24 (ucast (b ! 0))"

definition BigEndian_PutUint64 :: "byte list \<Rightarrow> uint64 \<Rightarrow> byte list option" where
  "BigEndian_PutUint64 b v =
     (if length b < 8 then None
      else Some ([ucast (drop_bit 56 v), ucast (drop_bit 48 v), ucast (drop_bit 40 v),
                  ucast (drop_bit 32 v), ucast (drop_bit 24 v), ucast (drop_bit 16 v),
                  ucast (drop_bit 8 v), ucast v] @ drop 8 b))"

definition BigEndian_Uint64 :: "byte list \<Rightarrow> uint64" where
  "BigEndian_Uint64 b =
     ucast (b ! 7) OR push_bit 8 (ucast (b ! 6)) OR push_bit 16 (ucast (b ! 5))
       OR push_bit 24 (ucast (b ! 4)) OR push_bit 32 (ucast (b ! 3))
       OR push_bit 40 (ucast (b ! 2)) OR push_bit 48 (ucast (b ! 1))
       OR push_bit 56 (ucast (b ! 0))"

text \<open>
  \<open>binary.PutUvarint(buf, x)\<close>: seven bits per byte, low bits first, the top bit of
  every byte but the last set; returns the number of bytes written and panics when
  \<open>buf\<close> is too short.
\<close>

function PutUvarint_loop :: "byte list \<Rightarrow> nat \<Rightarrow> uint64 \<Rightarrow> (byte list \<times> int) option" where
  "PutUvarint_loop buf i x =
     (if 0x80 \<le> x then
        (if i < length buf
         then PutUvarint_loop (buf[i := ucast x OR 0x80]) (i + 1) (drop_bit 7 x)
         else None)
      else if i < length buf then Some (buf[i := ucast x], int i + 1)
      else None)"
  by pat_completeness auto
termination
proof (relation "measure (\<lambda>(buf, i, x). unat x)")
  show "wf (measure (\<lambda>(buf, i, x). unat x))"
    by simp
next
  fix buf :: "byte list" and i :: nat and x :: uint64
  assume "0x80 \<le> x"
  then have "128 \<le> unat x"
    by (simp add: word_le_nat_alt)
  then have "unat x div 2 ^ 7 < unat x"
    by simp
  then show "((buf[i := ucast x OR 0x80], i + 1, drop_bit 7 x), (buf, i, x))
      \<in> measure (\<lambda>(buf, i, x). unat x)"
    by (simp add: drop_bit_eq_div unat_div)
qed

declare PutUvarint_loop.simps [simp del]

definition PutUvarint :: "byte list \<Rightarrow> uint64 \<Rightarrow> (byte list \<times> int) option" where
  "PutUvarint buf x = PutUvarint_loop buf 0 x"

text \<open>
  \<open>binary.Uvarint(buf)\<close>: the value and the number of bytes read; \<open>(0, 0)\<close> when the
  buffer ends before the last byte, \<open>(0, -n)\<close> when the value overflows 64 bits.
\<close>

fun Uvarint_loop :: "byte list \<Rightarrow> nat \<Rightarrow> uint64 \<Rightarrow> nat \<Rightarrow> uint64 \<times> int" where
  "Uvarint_loop [] i x s = (0, 0)"
| "Uvarint_loop (b # bs) i x s =
     (if i = 10 then (0, - (int i + 1))
      else if b < 0x80 then
        (if i = 9 \<and> 1 < b then (0, - (int i + 1))
         else (x OR shl64 (ucast b) s, int i + 1))
      else Uvarint_loop bs (i + 1) (x OR shl64 (ucast (b AND 0x7f)) s) (s + 7))"

definition Uvarint :: "byte list \<Rightarrow> uint64 \<times> int" where
  "Uvarint buf = Uvarint_loop buf 0 0 0"


text \<open>\<open>uvarintSize\<close> writes into a scratch array of \<open>MaxVarintLen64 = 10\<close> bytes.\<close>

definition uvarintSize :: "uint64 \<Rightarrow> int" where
  "uvarintSize x = (case PutUvarint (replicate 10 0) x of Some (b, n) \<Rightarrow> n | None \<Rightarrow> 0)"

section \<open>Errors, cells and items\<close>

text \<open>
  The two error values a \<open>Decode\<close> returns: \<open>io.ErrUnexpectedEOF\<close> and the package's
  \<open>errOverflowVarint\<close>. A run-time panic (index or slice bounds out of range) is not an
  error value: functions that can panic return an option, \<open>None\<close> for the panic.
\<close>

datatype error = ErrUnexpectedEOF | errOverflowVarint

text \<open>
  Every item holds a pointer to a cell owned by the caller. The store has one family of
  cells per Go type, addressed by natural numbers; pointers of different types never
  alias, pointers of the same type alias exactly when the addresses are equal.
  A \<open>[16]byte\<close> or \<open>[32]byte\<close> array is a function from indices to bytes, read below
  its length only.
\<close>

record store =
  byte_cells :: "nat \<Rightarrow> byte"
  bool_cells :: "nat \<Rightarrow> bool"
  uint16_cells :: "nat \<Rightarrow> uint16"
  uint32_cells :: "nat \<Rightarrow> uint32"
  uint64_cells :: "nat \<Rightarrow> uint64"
  bytes_cells :: "nat \<Rightarrow> byte list"
  string_cells :: "nat \<Rightarrow> gostring"
  array16_cells :: "nat \<Rightarrow> nat \<Rightarrow> byte"
  array32_cells :: "nat \<Rightarrow> nat \<Rightarrow> byte"

datatype Item =
    padding int
  | encByte nat
  | encBool nat
  | bigEndianUint16 nat
  | bigEndianUint32 nat
  | bigEndianUint64 nat
  | uvarint32 nat
  | uvarint64 nat
  | ordUvarint64 nat
  | lengthDelimBytes nat
  | lengthDelimString nat
  | bytes16 nat
  | bytes32 nat

subsection \<open>Fixed-size items\<close>

definition encByte_Encode :: "byte \<Rightarrow> byte list \<Rightarrow> byte list option" where
  "encByte_Encode v buf = (case buf of [] \<Rightarrow> None | b # bs \<Rightarrow> Some (v # bs))"

definition encByte_Decode :: "byte list \<Rightarrow> error + byte" where
  "encByte_Decode buf = (if length buf < 1 then Inl ErrUnexpectedEOF else Inr (buf ! 0))"

definition encBool_Encode :: "bool \<Rightarrow> byte list \<Rightarrow> byte list option" where
  "encBool_Encode v buf =
     (if v then (case buf of [] \<Rightarrow> None | b # bs \<Rightarrow> Some (1 # bs)) else Some buf)"

definition encBool_Decode :: "byte list \<Rightarrow> error + bool" where
  "encBool_Decode buf = (if length buf < 1 then Inl ErrUnexpectedEOF else Inr (buf ! 0 = 1))"

definition padding_Decode :: "int \<Rightarrow> byte list \<Rightarrow> error option" where
  "padding_Decode n buf = (if int (length buf) < n then Some ErrUnexpectedEOF else None)"

definition bigEndianUint16_Decode :: "byte list \<Rightarrow> error + uint16" where
  "bigEndianUint16_Decode buf =
     (if length buf < 2 then Inl ErrUnexpectedEOF else Inr (BigEndian_Uint16 buf))"

definition bigEndianUint32_Decode :: "byte list \<Rightarrow> error + uint32" where
  "bigEndianUint32_Decode buf =
     (if length buf < 4 then Inl ErrUnexpectedEOF else Inr (BigEndian_Uint32 buf))"

definition bigEndianUint64_Decode :: "byte list \<Rightarrow> error + uint64" where
  "bigEndianUint64_Decode buf =
     (if length buf < 8 then Inl ErrUnexpectedEOF else Inr (BigEndian_Uint64 buf))"

definition bytes16_Encode :: "(nat \<Rightarrow> byte) \<Rightarrow> byte list \<Rightarrow> byte list" where
  "bytes16_Encode v buf = go_copy buf (map v [0..<16])"

definition bytes16_Decode :: "(nat \<Rightarrow> byte) \<Rightarrow> byte list \<Rightarrow> error + (nat \<Rightarrow> byte)" where
  "bytes16_Decode v buf =
     (if length buf < 16 then Inl ErrUnexpectedEOF
      else Inr (\<lambda>j. if j < 16 then buf ! j else v j))"

definition bytes32_Encode :: "(nat \<Rightarrow> byte) \<Rightarrow> byte list \<Rightarrow> byte list" where
  "bytes32_Encode v buf = go_copy buf (map v [0..<32])"

definition bytes32_Decode :: "(nat \<Rightarrow> byte) \<Rightarrow> byte list \<Rightarrow> error + (nat \<Rightarrow> byte)" where
  "bytes32_Decode v buf =
     (if length buf < 32 then Inl ErrUnexpectedEOF
      else Inr (\<lambda>j. if j < 32 then buf ! j else v j))"

subsection \<open>Conventional varints\<close>

definition uvarint32_Encode :: "uint32 \<Rightarrow> byte list \<Rightarrow> byte list option" where
  "uvarint32_Encode v buf = map_option fst (PutUvarint buf (ucast v))"

definition uvarint32_Size :: "uint32 \<Rightarrow> int" where
  "uvarint32_Size v = uvarintSize (ucast v)"

definition uvarint32_Decode :: "byte list \<Rightarrow> error + uint32" where
  "uvarint32_Decode buf =
     (case Uvarint buf of (l, n) \<Rightarrow>
        if n = 0 then Inl ErrUnexpectedEOF
        else if n < 0 then Inl errOverflowVarint
        else if n > 4294967295 then Inl errOverflowVarint
        else Inr (ucast l))"

definition uvarint64_Encode :: "uint64 \<Rightarrow> byte list \<Rightarrow> byte list option" where
  "uvarint64_Encode v buf = map_option fst (PutUvarint buf v)"

definition uvarint64_Decode :: "byte list \<Rightarrow> error + uint64" where
  "uvarint64_Decode buf =
     (case Uvarint buf of (l, n) \<Rightarrow>
        if n = 0 then Inl ErrUnexpectedEOF
        else if n < 0 then Inl errOverflowVarint
        else Inr l)"

subsection \<open>The order-preserving unsigned varint\<close>

function ordUvarint64_Encode_loop :: "uint64 \<Rightarrow> int \<Rightarrow> nat \<Rightarrow> byte list \<Rightarrow> byte list option" where
  "ordUvarint64_Encode_loop v nBytes i buf =
     (if int i < nBytes then
        (if i < length buf
         then ordUvarint64_Encode_loop v nBytes (i + 1)
                (buf[i := buf ! i OR ucast (shr64 v (go_uint ((nBytes - int i - 1) * 8)))])
         else None)
      else Some buf)"
  by pat_completeness auto
termination
  by (relation "measure (\<lambda>(v, nBytes, i, buf). nat (nBytes - int i))") auto

declare ordUvarint64_Encode_loop.simps [simp del]

definition ordUvarint64_Encode :: "uint64 \<Rightarrow> byte list \<Rightarrow> byte list option" where
  "ordUvarint64_Encode v buf =
     (let l = Len64 v in
      if l > 56 then
        (case buf of [] \<Rightarrow> None
         | b # bs \<Rightarrow> map_option (\<lambda>bs'. 0xFF # bs') (BigEndian_PutUint64 bs v))
      else
        let nBytes = go_div (l + 6) 7;
            nLeadingOnes = nBytes - 1
        in (case buf of [] \<Rightarrow> None
            | b # bs \<Rightarrow>
                ordUvarint64_Encode_loop v nBytes 0
                  (shl8 (shl8 1 (go_uint nLeadingOnes) - 1) (go_uint (8 - nLeadingOnes)) # bs)))"

definition ordUvarint64_Size :: "uint64 \<Rightarrow> int" where
  "ordUvarint64_Size v = (let l = Len64 v in if l > 56 then 9 else 1 + go_div (l - 1) 7)"

function ordUvarint64_Decode_loop :: "byte list \<Rightarrow> int \<Rightarrow> int \<Rightarrow> nat \<Rightarrow> uint64 \<Rightarrow> uint64" where
  "ordUvarint64_Decode_loop buf nBytes rBytes i result =
     (if int i < nBytes then
        ordUvarint64_Decode_loop buf nBytes rBytes (i + 1)
          (result OR shl64 (ucast (buf ! i)) (go_uint (rBytes * 8 - int i * 8 - 8)))
      else result)"
  by pat_completeness auto
termination
  by (relation "measure (\<lambda>(buf, nBytes, rBytes, i, result). nat (nBytes - int i))") auto

declare ordUvarint64_Decode_loop.simps [simp del]

definition ordUvarint64_Decode :: "byte list \<Rightarrow> error + uint64" where
  "ordUvarint64_Decode buf =
     (if length buf < 1 then Inl ErrUnexpectedEOF
      else
        let nLeadingOnes = LeadingZeros8 (NOT (buf ! 0));
            nBytes = nLeadingOnes + 1;
            rBits = nBytes * 7;
            rBytes = go_div (rBits + 8) 8
        in if rBits = 63 then
             (if length buf < 9 then Inl ErrUnexpectedEOF
              else Inr (BigEndian_Uint64 (drop 1 buf)))
           else if int (length buf) < nBytes then Inl ErrUnexpectedEOF
           else
             let result = ordUvarint64_Decode_loop buf nBytes rBytes 0 0;
                 mask = shl64 1 (go_uint rBits) - 1
             in Inr (result AND mask))"

subsection \<open>Length-delimited bytes and strings\<close>

text \<open>
  \<open>(*e.v)[n:]\<close> panics when \<open>n\<close> exceeds the length of the value; \<open>copy(buf, ...)\<close>
  writes at the start of \<open>buf\<close>.
\<close>

definition lengthDelimBytes_Encode :: "byte list \<Rightarrow> byte list \<Rightarrow> byte list option" where
  "lengthDelimBytes_Encode v buf =
     (case PutUvarint buf (word_of_nat (length v)) of
        None \<Rightarrow> None
      | Some (buf', n) \<Rightarrow>
          if n > int (length v) then None
          else Some (go_copy buf' (drop (nat n) v)))"

definition lengthDelimBytes_Size :: "byte list \<Rightarrow> int" where
  "lengthDelimBytes_Size v = uvarintSize (word_of_nat (length v)) + int (length v)"

text \<open>
  The decoder allocates \<open>l\<close> zero bytes for the value and then copies them into the
  caller's buffer (\<open>copy(buf[n:], *e.v)\<close>): it returns the new value and the buffer.
\<close>

definition lengthDelimBytes_Decode :: "byte list \<Rightarrow> error + (byte list \<times> byte list)" where
  "lengthDelimBytes_Decode buf =
     (case Uvarint buf of (l, n) \<Rightarrow>
        if n = 0 then Inl ErrUnexpectedEOF
        else if n < 0 then Inl errOverflowVarint
        else if (word_of_nat (length (drop (nat n) buf)) :: uint64) < l then Inl ErrUnexpectedEOF
        else
          let v = replicate (unat l) 0
          in Inr (v, take (nat n) buf @ go_copy (drop (nat n) buf) v))"

definition lengthDelimString_Encode :: "gostring \<Rightarrow> byte list \<Rightarrow> byte list option" where
  "lengthDelimString_Encode v buf =
     (case PutUvarint buf (word_of_nat (length v)) of
        None \<Rightarrow> None
      | Some (buf', n) \<Rightarrow>
          if n > int (length v) then None
          else Some (go_copy buf' (drop (nat n) v)))"

definition lengthDelimString_Size :: "gostring \<Rightarrow> int" where
  "lengthDelimString_Size v = uvarintSize (word_of_nat (length v)) + int (length v)"

definition lengthDelimString_Decode :: "byte list \<Rightarrow> error + gostring" where
  "lengthDelimString_Decode buf =
     (case Uvarint buf of (l, n) \<Rightarrow>
        if n = 0 then Inl ErrUnexpectedEOF
        else if n < 0 then Inl errOverflowVarint
        else if (word_of_nat (length (drop (nat n) buf)) :: uint64) < l then Inl ErrUnexpectedEOF
        else Inr (drop (nat n) buf))"


subsection \<open>The \<open>Item\<close> interface\<close>

text \<open>
  \<open>Size\<close> reads the bound cell. \<open>Encode\<close> reads the cell and writes the buffer; it
  is given the store and returns it, so that its effect on the cells is part of the
  model. \<open>Decode\<close> returns the error (\<open>None\<close> for \<open>nil\<close>), the store and the buffer
  after the call. Buffers are disjoint from the cells, as the buffer that
  \<open>Encoding.Encode\<close> allocates is.
\<close>

fun Item_Size :: "store \<Rightarrow> Item \<Rightarrow> int" where
  "Item_Size s (padding n) = n"
| "Item_Size s (encByte p) = 1"
| "Item_Size s (encBool p) = 1"
| "Item_Size s (bigEndianUint16 p) = 2"
| "Item_Size s (bigEndianUint32 p) = 4"
| "Item_Size s (bigEndianUint64 p) = 8"
| "Item_Size s (uvarint32 p) = uvarint32_Size (uint32_cells s p)"
| "Item_Size s (uvarint64 p) = uvarintSize (uint64_cells s p)"
| "Item_Size s (ordUvarint64 p) = ordUvarint64_Size (uint64_cells s p)"
| "Item_Size s (lengthDelimBytes p) = lengthDelimBytes_Size (bytes_cells s p)"
| "Item_Size s (lengthDelimString p) = lengthDelimString_Size (string_cells s p)"
| "Item_Size s (bytes16 p) = 16"
| "Item_Size s (bytes32 p) = 32"

fun Item_Encode :: "store \<Rightarrow> Item \<Rightarrow> byte list \<Rightarrow> (store \<times> byte list) option" where
  "Item_Encode s (padding n) buf = Some (s, buf)"
| "Item_Encode s (encByte p) buf = map_option (Pair s) (encByte_Encode (byte_cells s p) buf)"
| "Item_Encode s (encBool p) buf = map_option (Pair s) (encBool_Encode (bool_cells s p) buf)"
| "Item_Encode s (bigEndianUint16 p) buf =
     map_option (Pair s) (BigEndian_PutUint16 buf (uint16_cells s p))"
| "Item_Encode s (bigEndianUint32 p) buf =
     map_option (Pair s) (BigEndian_PutUint32 buf (uint32_cells s p))"
| "Item_Encode s (bigEndianUint64 p) buf =
     map_option (Pair s) (BigEndian_PutUint64 buf (uint64_cells s p))"
| "Item_Encode s (uvarint32 p) buf = map_option (Pair s) (uvarint32_Encode (uint32_cells s p) buf)"
| "Item_Encode s (uvarint64 p) buf = map_option (Pair s) (uvarint64_Encode (uint64_cells s p) buf)"
| "Item_Encode s (ordUvarint64 p) buf =
     map_option (Pair s) (ordUvarint64_Encode (uint64_cells s p) buf)"
| "Item_Encode s (lengthDelimBytes p) buf =
     map_option (Pair s) (lengthDelimBytes_Encode (bytes_cells s p) buf)"
| "Item_Encode s (lengthDelimString p) buf =
     map_option (Pair s) (lengthDelimString_Encode (string_cells s p) buf)"
| "Item_Encode s (bytes16 p) buf = Some (s, bytes16_Encode (array16_cells s p) buf)"
| "Item_Encode s (bytes32 p) buf = Some (s, bytes32_Encode (array32_cells s p) buf)"

fun Item_Decode :: "store \<Rightarrow> Item \<Rightarrow> byte list \<Rightarrow> error option \<times> store \<times> byte list" where
  "Item_Decode s (padding n) buf = (padding_Decode n buf, s, buf)"
| "Item_Decode s (encByte p) buf =
     (case encByte_Decode buf of
        Inl e \<Rightarrow> (Some e, s, buf)
      | Inr v \<Rightarrow> (None, s\<lparr>byte_cells := (byte_cells s)(p := v)\<rparr>, buf))"
| "Item_Decode s (encBool p) buf =
     (case encBool_Decode buf of
        Inl e \<Rightarrow> (Some e, s, buf)
      | Inr v \<Rightarrow> (None, s\<lparr>bool_cells := (bool_cells s)(p := v)\<rparr>, buf))"
| "Item_Decode s (bigEndianUint16 p) buf =
     (case bigEndianUint16_Decode buf of
        Inl e \<Rightarrow> (Some e, s, buf)
      | Inr v \<Rightarrow> (None, s\<lparr>uint16_cells := (uint16_cells s)(p := v)\<rparr>, buf))"
| "Item_Decode s (bigEndianUint32 p) buf =
     (case bigEndianUint32_Decode buf of
        Inl e \<Rightarrow> (Some e, s, buf)
      | Inr v \<Rightarrow> (None, s\<lparr>uint32_cells := (uint32_cells s)(p := v)\<rparr>, buf))"
| "Item_Decode s (bigEndianUint64 p) buf =
     (case bigEndianUint64_Decode buf of
        Inl e \<Rightarrow> (Some e, s, buf)
      | Inr v \<Rightarrow> (None, s\<lparr>uint64_cells := (uint64_cells s)(p := v)\<rparr>, buf))"
| "Item_Decode s (uvarint32 p) buf =
     (case uvarint32_Decode buf of
        Inl e \<Rightarrow> (Some e, s, buf)
      | Inr v \<Rightarrow> (None, s\<lparr>uint32_cells := (uint32_cells s)(p := v)\<rparr>, buf))"
| "Item_Decode s (uvarint64 p) buf =
     (case uvarint64_Decode buf of
        Inl e \<Rightarrow> (Some e, s, buf)
      | Inr v \<Rightarrow> (None, s\<lparr>uint64_cells := (uint64_cells s)(p := v)\<rparr>, buf))"
| "Item_Decode s (ordUvarint64 p) buf =
     (case ordUvarint64_Decode buf of
        Inl e \<Rightarrow> (Some e, s, buf)
      | Inr v \<Rightarrow> (None, s\<lparr>uint64_cells := (uint64_cells s)(p := v)\<rparr>, buf))"
| "Item_Decode s (lengthDelimBytes p) buf =
     (case lengthDelimBytes_Decode buf of
        Inl e \<Rightarrow> (Some e, s, buf)
      | Inr (v, buf') \<Rightarrow> (None, s\<lparr>bytes_cells := (bytes_cells s)(p := v)\<rparr>, buf'))"
| "Item_Decode s (lengthDelimString p) buf =
     (case lengthDelimString_Decode buf of
        Inl e \<Rightarrow> (Some e, s, buf)
      | Inr v \<Rightarrow> (None, s\<lparr>string_cells := (string_cells s)(p := v)\<rparr>, buf))"
| "Item_Decode s (bytes16 p) buf =
     (case bytes16_Decode (array16_cells s p) buf of
        Inl e \<Rightarrow> (Some e, s, buf)
      | Inr v \<Rightarrow> (None, s\<lparr>array16_cells := (array16_cells s)(p := v)\<rparr>, buf))"
| "Item_Decode s (bytes32 p) buf =
     (case bytes32_Decode (array32_cells s p) buf of
        Inl e \<Rightarrow> (Some e, s, buf)
      | Inr v \<Rightarrow> (None, s\<lparr>array32_cells := (array32_cells s)(p := v)\<rparr>, buf))"

section \<open>The sequence composer\<close>

text \<open>
  \<open>Encoding.Encode\<close>: the first loop adds the sizes, \<open>make\<close> allocates that many zero
  bytes (and panics on a negative length), the second loop hands \<open>buf[i : i+size]\<close> to
  each item (a panic when the bounds are not \<open>0 \<le> i \<le> i+size \<le> len(buf)\<close>).
\<close>

fun Encoding_Encode_loop ::
  "store \<Rightarrow> Item list \<Rightarrow> int \<Rightarrow> byte list \<Rightarrow> (store \<times> byte list) option" where
  "Encoding_Encode_loop s [] i buf = Some (s, buf)"
| "Encoding_Encode_loop s (item # items) i buf =
     (let size = Item_Size s item in
      if i < 0 \<or> i + size < i \<or> int (length buf) < i + size then None
      else
        (case Item_Encode s item (take (nat size) (drop (nat i) buf)) of
           None \<Rightarrow> None
         | Some (s', sub) \<Rightarrow>
             Encoding_Encode_loop s' items (i + size)
               (take (nat i) buf @ sub @ drop (nat (i + size)) buf)))"

definition Encoding_Encode :: "store \<Rightarrow> Item list \<Rightarrow> (store \<times> byte list) option" where
  "Encoding_Encode s items =
     (let totalSize = foldl (\<lambda>t item. t + Item_Size s item) 0 items in
      if totalSize < 0 then None
      else Encoding_Encode_loop s items 0 (replicate (nat totalSize) 0))"

text \<open>
  \<open>Encoding.Decode\<close>: each item decodes from \<open>buf[i:]\<close> (a panic when \<open>i\<close> is out of
  range); the first error is returned at once; otherwise \<open>i\<close> advances by the item's
  size, computed after its decode. The result is \<open>None\<close> for a panic, otherwise the
  returned error (\<open>None\<close> for \<open>nil\<close>), the store and the buffer.
\<close>

fun Encoding_Decode_loop ::
  "store \<Rightarrow> Item list \<Rightarrow> int \<Rightarrow> byte list \<Rightarrow> (error option \<times> store \<times> byte list) option" where
  "Encoding_Decode_loop s [] i buf = Some (None, s, buf)"
| "Encoding_Decode_loop s (item # items) i buf =
     (if i < 0 \<or> int (length buf) < i then None
      else
        (case Item_Decode s item (drop (nat i) buf) of
           (Some err, s', sub) \<Rightarrow> Some (Some err, s', take (nat i) buf @ sub)
         | (None, s', sub) \<Rightarrow>
             Encoding_Decode_loop s' items (i + Item_Size s' item) (take (nat i) buf @ sub)))"

definition Encoding_Decode ::
  "store \<Rightarrow> Item list \<Rightarrow> byte list \<Rightarrow> (error option \<times> store \<times> byte list) option" where
  "Encoding_Decode s items buf = Encoding_Decode_loop s items 0 buf"

text \<open>\<open>bytes.Compare\<close>, the lexicographic comparison the tests order encodings by.\<close>

fun bytes_Compare :: "byte list \<Rightarrow> byte list \<Rightarrow> int" where
  "bytes_Compare [] [] = 0"
| "bytes_Compare [] (y # ys) = - 1"
| "bytes_Compare (x # xs) [] = 1"
| "bytes_Compare (x # xs) (y # ys) =
     (if x < y then - 1 else if y < x then 1 else bytes_Compare xs ys)"


section \<open>The order-preserving signed varint\<close>

text \<open>
  Modelled from the spec: \<open>OrdVarint64\<close>, the signed codec, is exercised by
  \<open>TestOrdVarint64\<close> but its implementation is not among the sources. The definitions
  below follow the description of the format: the \<open>n\<close>-byte form, \<open>n\<close> from 1 to 8,
  holds the values from \<open>-2^(7n-1)\<close> to \<open>2^(7n-1) - 1\<close> as a run of \<open>n\<close> bits equal to
  the sign bit (ones for a non-negative value), one terminator bit of the opposite value
  and the low \<open>7n - 1\<close> bits of the two's complement of the value, big endian; any other
  value is a marker byte (\<open>0xFF\<close> non-negative, \<open>0x00\<close> negative) followed by the eight
  big-endian bytes of \<open>uint64(x) + 2^63\<close>. The shortest form that holds the value is
  used.
\<close>

definition big_endian_bytes :: "nat \<Rightarrow> nat \<Rightarrow> byte list" where
  "big_endian_bytes n V = map (\<lambda>i. word_of_nat (V div 256 ^ (n - 1 - i))) [0..<n]"

definition OrdVarint64_nBytes :: "int \<Rightarrow> nat" where
  "OrdVarint64_nBytes x =
     (case filter (\<lambda>n. - (2 ^ (7 * n - 1)) \<le> x \<and> x < 2 ^ (7 * n - 1)) [1..<9] of
        [] \<Rightarrow> 9
      | n # ns \<Rightarrow> n)"

definition OrdVarint64_Encode :: "uint64 \<Rightarrow> byte list" where
  "OrdVarint64_Encode v =
     (let x = sint v; n = OrdVarint64_nBytes x in
      if n = 9 then (if 0 \<le> x then 0xFF else 0x00) # big_endian_bytes 8 (unat (v + 2 ^ 63))
      else
        big_endian_bytes n
          ((if 0 \<le> x then (2 ^ n - 1) * 2 ^ (7 * n) else 2 ^ (7 * n - 1))
           + nat (x mod 2 ^ (7 * n - 1))))"

section \<open>Descriptions of the wire format used in the proofs\<close>

text \<open>
  The header byte of the \<open>n\<close>-byte compact form (\<open>n - 1\<close> leading ones), the bytes of
  the compact form and the bytes of the escape form, as closed expressions. The lemmas
  below show that \<open>ordUvarint64_Encode\<close> computes exactly these.
\<close>

definition ordUvarint64_header :: "nat \<Rightarrow> byte" where
  "ordUvarint64_header n = push_bit (9 - n) (mask (n - 1))"

definition compact_bytes :: "nat \<Rightarrow> uint64 \<Rightarrow> byte list" where
  "compact_bytes n x =
     map (\<lambda>k. (if k = 0 then ordUvarint64_header n else 0) OR ucast (drop_bit ((n - k - 1) * 8) x))
       [0..<n]"

definition escape_bytes :: "uint64 \<Rightarrow> byte list" where
  "escape_bytes v = [0xFF, ucast (drop_bit 56 v), ucast (drop_bit 48 v), ucast (drop_bit 40 v),
                  ucast (drop_bit 32 v), ucast (drop_bit 24 v), ucast (drop_bit 16 v),
                  ucast (drop_bit 8 v), ucast v]"

definition ordUvarint64_bytes :: "uint64 \<Rightarrow> byte list" where
  "ordUvarint64_bytes x =
     (if 2 ^ 56 \<le> x then escape_bytes x else compact_bytes (nat (ordUvarint64_Size x)) x)"

text \<open>The number a byte sequence denotes when read big endian.\<close>

fun be_val :: "byte list \<Rightarrow> nat" where
  "be_val [] = 0"
| "be_val (x # xs) = unat x * 256 ^ length xs + be_val xs"

section \<open>Bit lengths and sizes\<close>

lemma bit_length_le_iff: "bit_length n \<le> k \<longleftrightarrow> n < 2 ^ k"
proof (induction n arbitrary: k rule: bit_length.induct)
  case (1 n)
  show ?case
  proof (cases "n = 0")
    case True
    then show ?thesis by (simp add: bit_length.simps)
  next
    case False
    note nz = this
    show ?thesis
    proof (cases k)
      case 0
      with nz show ?thesis by (simp add: bit_length.simps [of n])
    next
      case (Suc k')
      have "bit_length n \<le> Suc k' \<longleftrightarrow> bit_length (n div 2) \<le> k'"
        using nz by (simp add: bit_length.simps [of n])
      also have "\<dots> \<longleftrightarrow> n div 2 < 2 ^ k'"
        using "1.IH" [OF nz] .
      also have "\<dots> \<longleftrightarrow> n < 2 ^ Suc k'"
        by auto
      finally show ?thesis using Suc by simp
    qed
  qed
qed

lemma bit_length_eqI: "2 ^ k \<le> n \<Longrightarrow> n < 2 ^ Suc k \<Longrightarrow> bit_length n = Suc k"
  using bit_length_le_iff [of n "Suc k"] bit_length_le_iff [of n k] by simp

lemma Len64_le_iff: "Len64 x \<le> int k \<longleftrightarrow> unat x < 2 ^ k"
  by (simp add: Len64_def bit_length_le_iff)

lemma Len64_escape_iff: "56 < Len64 x \<longleftrightarrow> 2 ^ 56 \<le> x"
proof -
  have "56 < Len64 x \<longleftrightarrow> \<not> Len64 x \<le> int 56" by auto
  also have "\<dots> \<longleftrightarrow> \<not> unat x < 2 ^ 56" by (simp only: Len64_le_iff)
  also have "\<dots> \<longleftrightarrow> 2 ^ 56 \<le> x" by (auto simp add: word_le_nat_alt)
  finally show ?thesis .
qed

lemma Len64_bounds: "0 \<le> Len64 x" "Len64 x \<le> 64"
proof -
  show "0 \<le> Len64 x" by (simp add: Len64_def)
  have "unat x < 2 ^ 64" using unsigned_less [of x] by simp
  then show "Len64 x \<le> 64" using Len64_le_iff [of x 64] by simp
qed

lemma go_div_nonneg: "0 \<le> a \<Longrightarrow> 0 < b \<Longrightarrow> go_div a b = a div b"
  by (cases "a = 0") (simp_all add: go_div_def)

lemma Size_small:
  assumes "x < 2 ^ 56"
  obtains n where "1 \<le> n" "n \<le> 8" "ordUvarint64_Size x = int n" "unat x < 2 ^ (7 * n)"
    "1 < n \<longrightarrow> 2 ^ (7 * (n - 1)) \<le> unat x"
    "x \<noteq> 0 \<longrightarrow> go_div (Len64 x + 6) 7 = int n" "x = 0 \<longrightarrow> n = 1"
proof (cases "x = 0")
  case True
  have "Len64 x = 0" using True by (simp add: Len64_def bit_length.simps)
  then have "ordUvarint64_Size x = int 1"
    by (simp add: ordUvarint64_Size_def go_div_def)
  then show ?thesis using True that [of 1] by simp
next
  case False
  define l where "l = bit_length (unat x)"
  have L: "Len64 x = int l" by (simp add: l_def Len64_def)
  have "unat x \<noteq> 0" using False by (simp add: unat_eq_0)
  then have lpos: "0 < l" unfolding l_def by (simp add: bit_length.simps [of "unat x"])
  have "\<not> 56 < Len64 x" using assms Len64_escape_iff [of x] by simp
  then have l56: "l \<le> 56" using L by simp
  define n where "n = (l + 6) div 7"
  have n1: "1 \<le> n" and n8: "n \<le> 8" using lpos l56 unfolding n_def by auto
  have le: "l \<le> 7 * n" unfolding n_def by presburger
  have gt: "7 * (n - 1) < l" using lpos unfolding n_def by presburger
  have e: "int l - 1 = int (l - 1)" using lpos by simp
  have "go_div (int (l - 1)) 7 = int (l - 1) div 7"
    by (rule go_div_nonneg) simp_all
  then have "go_div (int l - 1) 7 = int ((l - 1) div 7)"
    unfolding e by (simp only: zdiv_int of_nat_numeral)
  moreover have "1 + (l - 1) div 7 = n"
  proof -
    have "l + 6 = (l - 1) + 7" using lpos by simp
    then show ?thesis unfolding n_def by simp
  qed
  ultimately have S: "ordUvarint64_Size x = int n"
    using l56 L by (simp add: ordUvarint64_Size_def Let_def)
  have "int l + 6 = int (l + 6)" by simp
  then have D: "go_div (Len64 x + 6) 7 = int n"
    unfolding L n_def by (simp add: go_div_nonneg zdiv_int del: of_nat_add)
  have U: "unat x < 2 ^ (7 * n)"
    using le bit_length_le_iff [of "unat x" "7 * n"] unfolding l_def by simp
  have Lo: "2 ^ (7 * (n - 1)) \<le> unat x"
    using gt bit_length_le_iff [of "unat x" "7 * (n - 1)"] unfolding l_def by simp
  show ?thesis using that [of n] n1 n8 S U Lo D False by simp
qed

lemma Encode_loop_closed:
  assumes "nBytes = int n" "n \<le> 8"
  shows "i \<le> n \<Longrightarrow> n \<le> length buf \<Longrightarrow> ordUvarint64_Encode_loop v nBytes i buf =
     Some (take i buf @ map (\<lambda>k. buf ! k OR ucast (drop_bit ((n - k - 1) * 8) v)) [i..<n]
           @ drop n buf)"
proof (induction "n - i" arbitrary: i buf)
  case 0
  then have "i = n" by simp
  then show ?case using assms
    by (subst ordUvarint64_Encode_loop.simps) simp
next
  case (Suc d)
  then have lt: "i < n" by simp
  have len: "i < length buf" using lt Suc.prems by simp
  let ?g = "\<lambda>k. ucast (drop_bit ((n - k - 1) * 8) v) :: byte"
  have sh: "shr64 v (go_uint ((nBytes - int i - 1) * 8)) = drop_bit ((n - i - 1) * 8) v"
  proof -
    have "(nBytes - int i - 1) * 8 = int ((n - i - 1) * 8)"
      using lt assms(1) by (simp add: algebra_simps of_nat_diff)
    moreover have "(n - i - 1) * 8 < 64" using assms(2) lt by simp
    ultimately show ?thesis
      by (simp add: shr64_def go_uint_def del: of_nat_mult)
  qed
  let ?buf' = "buf[i := buf ! i OR ?g i]"
  have step: "ordUvarint64_Encode_loop v nBytes i buf = ordUvarint64_Encode_loop v nBytes (i + 1) ?buf'"
  proof -
    have "ordUvarint64_Encode_loop v nBytes i buf = ordUvarint64_Encode_loop v nBytes (i + 1)
        (buf[i := buf ! i OR ucast (shr64 v (go_uint ((nBytes - int i - 1) * 8)))])"
      using lt len assms(1) by (subst ordUvarint64_Encode_loop.simps) simp
    then show ?thesis unfolding sh .
  qed
  have IH: "ordUvarint64_Encode_loop v nBytes (i + 1) ?buf' =
     Some (take (i + 1) ?buf' @ map (\<lambda>k. ?buf' ! k OR ?g k) [i + 1..<n] @ drop n ?buf')"
    using Suc.hyps(1) [of "i + 1" ?buf'] Suc.hyps(2) lt Suc.prems by simp
  have t: "take (i + 1) ?buf' = take i buf @ [buf ! i OR ?g i]"
    using len by (simp add: take_Suc_conv_app_nth)
  have m: "map (\<lambda>k. ?buf' ! k OR ?g k) [i + 1..<n] = map (\<lambda>k. buf ! k OR ?g k) [i + 1..<n]"
    by (rule map_cong) auto
  have d: "drop n ?buf' = drop n buf" using lt by simp
  have u: "[i..<n] = i # [i + 1..<n]" using lt by (simp add: upt_conv_Cons)
  show ?case unfolding step IH t m d u by simp
qed

lemma header_expr:
  assumes "1 \<le> n" "n \<le> 8"
  shows "shl8 (shl8 1 (go_uint (int n - 1)) - 1) (go_uint (8 - (int n - 1))) = ordUvarint64_header n"
proof -
  have a: "go_uint (int n - 1) = n - 1"
    using assms by (simp add: go_uint_def nat_diff_distrib')
  have "8 - (int n - 1) = int (9 - n)" using assms by simp
  then have b: "go_uint (8 - (int n - 1)) = 9 - n"
    using assms by (simp add: go_uint_def del: of_nat_diff)
  have c: "shl8 1 (n - 1) - 1 = mask (n - 1)"
    using assms by (simp add: shl8_def mask_eq_exp_minus_1)
  show ?thesis unfolding a b c
    by (simp add: shl8_def ordUvarint64_header_def)
qed

lemma header_zero_case: "shl8 (shl8 1 (go_uint (- 1)) - 1) (go_uint 9) = 0"
  by (simp add: shl8_def go_uint_def)

lemma Encode_small:
  assumes "x < 2 ^ 56" "ordUvarint64_Size x = int n"
  shows "ordUvarint64_Encode x (replicate n 0) = Some (compact_bytes n x)"
proof -
  obtain m where m: "1 \<le> m" "m \<le> 8" "ordUvarint64_Size x = int m"
    "x \<noteq> 0 \<longrightarrow> go_div (Len64 x + 6) 7 = int m" "x = 0 \<longrightarrow> m = 1"
    using Size_small [OF assms(1)] by metis
  have nm: "n = m" using m(3) assms(2) by simp
  have n: "1 \<le> n" "n \<le> 8" using m nm by simp_all
  have esc: "\<not> 56 < Len64 x" using assms(1) Len64_escape_iff [of x] by simp
  obtain bs where bs: "replicate n (0::byte) = 0 # bs" "bs = replicate (n - 1) 0"
    using n by (cases n) simp_all
  show ?thesis
  proof (cases "x = 0")
    case True
    then have n1: "n = 1" using m nm by simp
    have L: "Len64 x = 0" using True by (simp add: Len64_def bit_length.simps)
    have "ordUvarint64_Encode x (replicate n 0) = Some [0]"
      unfolding ordUvarint64_Encode_def L n1
      by (simp add: go_div_def header_zero_case ordUvarint64_Encode_loop.simps)
    moreover have "compact_bytes n x = [0]"
      unfolding n1 True by (simp add: compact_bytes_def ordUvarint64_header_def)
    ultimately show ?thesis by simp
  next
    case False
    then have D: "go_div (Len64 x + 6) 7 = int n" using m nm by simp
    let ?h = "ordUvarint64_header n"
    have E: "ordUvarint64_Encode x (replicate n 0) = ordUvarint64_Encode_loop x (int n) 0 (?h # bs)"
      unfolding ordUvarint64_Encode_def Let_def D bs(1) using esc header_expr [OF n]
      by simp
    have len: "n \<le> length (?h # bs)" using bs(2) n by simp
    have "ordUvarint64_Encode_loop x (int n) 0 (?h # bs) =
       Some (take 0 (?h # bs) @ map (\<lambda>k. (?h # bs) ! k OR ucast (drop_bit ((n - k - 1) * 8) x)) [0..<n]
           @ drop n (?h # bs))"
      by (rule Encode_loop_closed [OF refl n(2) _ len]) simp
    also have "\<dots> = Some (map (\<lambda>k. (?h # bs) ! k OR ucast (drop_bit ((n - k - 1) * 8) x)) [0..<n])"
      using bs(2) n by simp
    also have "map (\<lambda>k. (?h # bs) ! k OR ucast (drop_bit ((n - k - 1) * 8) x)) [0..<n] = compact_bytes n x"
      unfolding compact_bytes_def
      by (rule map_cong) (auto simp: bs(2) nth_Cons')
    finally show ?thesis using E by simp
  qed
qed

lemma Size_escape: "2 ^ 56 \<le> x \<Longrightarrow> ordUvarint64_Size x = 9"
  using Len64_escape_iff [of x] by (simp add: ordUvarint64_Size_def)

lemma Encode_escape:
  assumes "2 ^ 56 \<le> x"
  shows "ordUvarint64_Encode x (replicate 9 0) = Some (escape_bytes x)"
proof -
  have esc: "56 < Len64 x" using assms Len64_escape_iff [of x] by simp
  have r: "replicate 9 (0::byte) = 0 # replicate 8 0" by (simp add: numeral_eq_Suc)
  show ?thesis
    unfolding ordUvarint64_Encode_def Let_def r using esc
    by (simp add: BigEndian_PutUint64_def escape_bytes_def)
qed

section \<open>The signed codec on the documented examples\<close>

lemma OrdVarint64_63: "OrdVarint64_Encode 63 = [0xBF]"
  by (simp add: OrdVarint64_Encode_def OrdVarint64_nBytes_def big_endian_bytes_def upt_rec)

lemma OrdVarint64_64: "OrdVarint64_Encode 64 = [0xC0, 0x40]"
  by (simp add: OrdVarint64_Encode_def OrdVarint64_nBytes_def big_endian_bytes_def upt_rec)

lemma OrdVarint64_m64: "OrdVarint64_Encode (- 64) = [0x40]"
  by (simp add: OrdVarint64_Encode_def OrdVarint64_nBytes_def big_endian_bytes_def upt_rec)

lemma OrdVarint64_m65: "OrdVarint64_Encode (- 65) = [0x3F, 0xBF]"
  by (simp add: OrdVarint64_Encode_def OrdVarint64_nBytes_def big_endian_bytes_def upt_rec)

lemma OrdVarint64_min:
  "OrdVarint64_Encode (- (2 ^ 63)) = [0x00, 0x00, 0x00, 0x00, 0x00, 0x00, 0x00, 0x00, 0x00]"
  by (simp add: OrdVarint64_Encode_def OrdVarint64_nBytes_def big_endian_bytes_def upt_rec)

lemma OrdVarint64_max:
  "OrdVarint64_Encode (2 ^ 63 - 1) = [0xFF, 0xFF, 0xFF, 0xFF, 0xFF, 0xFF, 0xFF, 0xFF, 0xFF]"
  by (simp add: OrdVarint64_Encode_def OrdVarint64_nBytes_def big_endian_bytes_def upt_rec)

text \<open>
  C8. The order-preserving signed varint encodes 63 as the byte \<open>0xBF\<close>, 64 as
  \<open>0xC0 0x40\<close>, -64 as the byte \<open>0x40\<close>, -65 as \<open>0x3F 0xBF\<close>, the least value \<open>-2^63\<close>
  as nine bytes \<open>0x00\<close> and the greatest value \<open>2^63 - 1\<close> as nine bytes \<open>0xFF\<close>.
\<close>

theorem OrdVarint64_examples:
  "OrdVarint64_Encode 63 = [0xBF]
   \<and> OrdVarint64_Encode 64 = [0xC0, 0x40]
   \<and> OrdVarint64_Encode (- 64) = [0x40]
   \<and> OrdVarint64_Encode (- 65) = [0x3F, 0xBF]
   \<and> OrdVarint64_Encode (- (2 ^ 63)) = [0x00, 0x00, 0x00, 0x00, 0x00, 0x00, 0x00, 0x00, 0x00]
   \<and> OrdVarint64_Encode (2 ^ 63 - 1) = [0xFF, 0xFF, 0xFF, 0xFF, 0xFF, 0xFF, 0xFF, 0xFF, 0xFF]"
  using OrdVarint64_63 OrdVarint64_64 OrdVarint64_m64 OrdVarint64_m65 OrdVarint64_min
    OrdVarint64_max
  by (intro conjI)

section \<open>The first byte of an encoding\<close>

lemma bit_imp_index_less:
  fixes x :: "'a::len word"
  assumes "unat x < 2 ^ k" "bit x j"
  shows "j < k"
proof -
  have "unat (take_bit k x) = unat x"
    using assms(1) by (simp add: unsigned_take_bit_eq take_bit_nat_eq_self)
  then have "take_bit k x = x"
    by (simp add: word_unat_eq_iff)
  then have "bit (take_bit k x) j"
    using assms(2) by simp
  then show ?thesis
    by (simp add: bit_take_bit_iff)
qed

lemma div_less_power:
  fixes X :: nat
  assumes "X < 2 ^ (a + b)"
  shows "X div 2 ^ a < 2 ^ b"
proof -
  have "X < 2 ^ b * 2 ^ a" using assms by (simp add: power_add mult.commute)
  then show ?thesis by (rule less_mult_imp_div_less)
qed

lemma top_byte_unat:
  fixes x :: uint64
  assumes "1 \<le> n" "n \<le> 8" "unat x < 2 ^ (7 * n)"
  shows "unat (ucast (drop_bit ((n - 1) * 8) x) :: byte) = unat x div 2 ^ ((n - 1) * 8)"
    and "unat x div 2 ^ ((n - 1) * 8) < 2 ^ (8 - n)"
proof -
  have "7 * n = (n - 1) * 8 + (8 - n)" using assms(1,2) by simp
  then have "unat x < 2 ^ ((n - 1) * 8 + (8 - n))" using assms(3) by simp
  then show small: "unat x div 2 ^ ((n - 1) * 8) < 2 ^ (8 - n)"
    by (rule div_less_power)
  have "(2::nat) ^ (8 - n) \<le> 2 ^ 8"
    by (rule power_increasing) simp_all
  then have "unat x div 2 ^ ((n - 1) * 8) < 2 ^ 8" using small by simp
  then have "take_bit 8 (unat x div 2 ^ ((n - 1) * 8)) = unat x div 2 ^ ((n - 1) * 8)"
    by (simp add: take_bit_nat_eq_self)
  moreover have "unat (ucast (drop_bit ((n - 1) * 8) x) :: byte)
      = take_bit 8 (drop_bit ((n - 1) * 8) (unat x))"
    by (simp add: unsigned_ucast_eq unat_drop_bit_eq)
  ultimately show "unat (ucast (drop_bit ((n - 1) * 8) x) :: byte) = unat x div 2 ^ ((n - 1) * 8)"
    by (simp add: drop_bit_eq_div)
qed

lemma header_unat:
  assumes "1 \<le> n" "n \<le> 8"
  shows "unat (ordUvarint64_header n) = 256 - 2 ^ (9 - n)"
proof -
  from assms have "n = 1 \<or> n = 2 \<or> n = 3 \<or> n = 4 \<or> n = 5 \<or> n = 6 \<or> n = 7 \<or> n = 8"
    by auto
  then show ?thesis
    by (elim disjE) (simp_all add: ordUvarint64_header_def mask_numeral)
qed

lemma header_bit:
  assumes "1 \<le> n" "n \<le> 8"
  shows "bit (ordUvarint64_header n) m \<longleftrightarrow> 9 - n \<le> m \<and> m < 8"
  using assms by (auto simp: ordUvarint64_header_def bit_push_bit_iff bit_mask_iff)

lemma first_byte_unat:
  fixes x :: uint64
  assumes "1 \<le> n" "n \<le> 8" "unat x < 2 ^ (7 * n)"
  shows "unat (ordUvarint64_header n OR ucast (drop_bit ((n - 1) * 8) x))
         = 256 - 2 ^ (9 - n) + unat x div 2 ^ ((n - 1) * 8)"
proof -
  let ?h = "ordUvarint64_header n"
  let ?t = "ucast (drop_bit ((n - 1) * 8) x) :: byte"
  have disj: "\<not> bit ?h m \<or> \<not> bit ?t m" for m
  proof (cases "bit ?t m")
    case False
    then show ?thesis by simp
  next
    case True
    then have "bit x ((n - 1) * 8 + m)"
      by (simp add: bit_ucast_iff bit_drop_bit_eq)
    then have "(n - 1) * 8 + m < 7 * n"
      using bit_imp_index_less [OF assms(3)] by blast
    then have "m < 9 - n" using assms(1,2) by simp
    then show ?thesis using header_bit [OF assms(1,2)] by simp
  qed
  have "?h OR ?t = ?h + ?t"
    using disjunctive_add [of ?h ?t] disj by simp
  moreover have "unat (?h + ?t) = unat ?h + unat ?t"
  proof -
    have "9 - n = Suc (8 - n)" using assms(2) by simp
    then have a: "(2::nat) ^ (9 - n) = 2 * 2 ^ (8 - n)" by simp
    have "(2::nat) ^ (9 - n) \<le> 2 ^ 8"
      by (rule power_increasing) (use assms in simp_all)
    then have b: "(2::nat) ^ (9 - n) \<le> 256" by simp
    have c: "unat ?t < 2 ^ (8 - n)"
      using top_byte_unat [OF assms] by simp
    have "unat ?h + unat ?t < 256"
      unfolding header_unat [OF assms(1,2)] using a b c by linarith
    then have "unat ?h + unat ?t < 2 ^ LENGTH(8)" by simp
    then show ?thesis by (simp only: unat_add_lem)
  qed
  ultimately show ?thesis
    using top_byte_unat(1) [OF assms] header_unat [OF assms(1,2)] by simp
qed

lemma unat_not_byte: "unat (NOT b :: byte) = 255 - unat b"
proof -
  have "NOT b = (- 1) - b" by (simp add: not_eq_complement)
  moreover have "unat ((- 1) - b) = unat (- 1 :: byte) - unat b"
    by (rule unat_sub) simp
  moreover have "unat (- 1 :: byte) = 255"
    by (simp add: unsigned_minus_1_eq_mask mask_numeral)
  ultimately show ?thesis by simp
qed

lemma LeadingZeros8_not:
  assumes "1 \<le> n" "n \<le> 8" "256 - 2 ^ (9 - n) \<le> unat b" "unat b < 256 - 2 ^ (8 - n)"
  shows "LeadingZeros8 (NOT b) = int n - 1"
proof -
  have "9 - n = Suc (8 - n)" using assms(2) by simp
  then have a: "(2::nat) ^ (9 - n) = 2 * 2 ^ (8 - n)" by simp
  have "(2::nat) ^ (9 - n) \<le> 2 ^ 8"
    by (rule power_increasing) (use assms in simp_all)
  then have b: "(2::nat) ^ (9 - n) \<le> 256" by simp
  have lo: "2 ^ (8 - n) \<le> 255 - unat b" using assms(4) a b by linarith
  have "(0::nat) < 2 ^ (8 - n)" by simp
  then have "255 - unat b < 2 ^ (9 - n)" using assms(3) a b by linarith
  then have hi: "255 - unat b < 2 ^ Suc (8 - n)" using \<open>9 - n = Suc (8 - n)\<close> by simp
  have "bit_length (255 - unat b) = Suc (8 - n)"
    using lo hi by (rule bit_length_eqI)
  then have "Len8 (NOT b) = int (Suc (8 - n))"
    by (simp add: Len8_def unat_not_byte)
  then show ?thesis using assms(1,2) by (simp add: LeadingZeros8_def)
qed

lemma LeadingZeros8_not_FF: "LeadingZeros8 (NOT 0xFF) = 8"
  by (simp add: LeadingZeros8_def Len8_def bit_length.simps)

lemma Decode_loop_bit:
  assumes "nBytes = int n" "rBytes = int n" "n \<le> 8"
  shows "i \<le> n \<Longrightarrow> bit (ordUvarint64_Decode_loop buf nBytes rBytes i r) j \<longleftrightarrow>
     bit r j \<or> (\<exists>k. i \<le> k \<and> k < n \<and> (n - 1 - k) * 8 \<le> j \<and> j < 64
                    \<and> bit (buf ! k) (j - (n - 1 - k) * 8))"
proof (induction "n - i" arbitrary: i r)
  case 0
  then have "i = n" by simp
  then show ?case using assms
    by (subst ordUvarint64_Decode_loop.simps) auto
next
  case (Suc d)
  then have lt: "i < n" by simp
  have sh: "shl64 (ucast (buf ! i)) (go_uint (rBytes * 8 - int i * 8 - 8))
      = push_bit ((n - 1 - i) * 8) (ucast (buf ! i))"
  proof -
    have "rBytes * 8 - int i * 8 - 8 = int ((n - 1 - i) * 8)"
      using lt assms(2) by (simp add: algebra_simps of_nat_diff)
    moreover have "(n - 1 - i) * 8 < 64" using assms(3) lt by simp
    ultimately show ?thesis
      by (simp add: shl64_def go_uint_def del: of_nat_mult)
  qed
  let ?r' = "r OR push_bit ((n - 1 - i) * 8) (ucast (buf ! i))"
  have step: "ordUvarint64_Decode_loop buf nBytes rBytes i r
      = ordUvarint64_Decode_loop buf nBytes rBytes (i + 1) ?r'"
  proof -
    have "ordUvarint64_Decode_loop buf nBytes rBytes i r
      = ordUvarint64_Decode_loop buf nBytes rBytes (i + 1)
          (r OR shl64 (ucast (buf ! i)) (go_uint (rBytes * 8 - int i * 8 - 8)))"
      using lt assms(1) by (subst ordUvarint64_Decode_loop.simps) simp
    then show ?thesis unfolding sh .
  qed
  have IH: "bit (ordUvarint64_Decode_loop buf nBytes rBytes (i + 1) ?r') j \<longleftrightarrow>
     bit ?r' j \<or> (\<exists>k. i + 1 \<le> k \<and> k < n \<and> (n - 1 - k) * 8 \<le> j \<and> j < 64
                    \<and> bit (buf ! k) (j - (n - 1 - k) * 8))"
    using Suc.hyps(1) [of "i + 1" ?r'] Suc.hyps(2) lt by simp
  have new: "bit ?r' j \<longleftrightarrow> bit r j \<or> ((n - 1 - i) * 8 \<le> j \<and> j < 64
                    \<and> bit (buf ! i) (j - (n - 1 - i) * 8))"
    by (auto simp: bit_or_iff bit_push_bit_iff bit_ucast_iff dest: bit_imp_le_length)
  have split: "(\<exists>k. i \<le> k \<and> P k) \<longleftrightarrow> P i \<or> (\<exists>k. i + 1 \<le> k \<and> P k)" for P
    by (metis Suc_eq_plus1 Suc_leI le_neq_implies_less order_refl le_trans le_add1)
  show ?case
    unfolding step IH new
    by (subst split) (use lt in auto)
qed

section \<open>Decoding what was encoded\<close>

lemma go_uint_nat: "m < 2 ^ 64 \<Longrightarrow> go_uint (int m) = m"
proof -
  assume "m < 2 ^ 64"
  then have "int m < 2 ^ 64" by (metis of_nat_less_numeral_power_cancel_iff)
  then have "int m mod 2 ^ 64 = int m" by simp
  then show ?thesis unfolding go_uint_def by simp
qed

lemma compact_bytes_length [simp]: "length (compact_bytes n x) = n"
  by (simp add: compact_bytes_def)

lemma compact_bytes_nth:
  "k < n \<Longrightarrow> compact_bytes n x ! k =
     (if k = 0 then ordUvarint64_header n else 0) OR ucast (drop_bit ((n - k - 1) * 8) x)"
  by (simp add: compact_bytes_def)

lemma compact_first_byte:
  fixes x :: uint64
  assumes "1 \<le> n" "n \<le> 8" "unat x < 2 ^ (7 * n)"
  shows "unat ((compact_bytes n x @ rest) ! 0) = 256 - 2 ^ (9 - n) + unat x div 2 ^ ((n - 1) * 8)"
proof -
  have "(compact_bytes n x @ rest) ! 0 = compact_bytes n x ! 0"
    using assms(1) by (simp add: nth_append)
  also have "\<dots> = ordUvarint64_header n OR ucast (drop_bit ((n - 1) * 8) x)"
    using assms(1) by (simp add: compact_bytes_nth)
  finally show ?thesis using first_byte_unat [OF assms] by simp
qed

lemma compact_first_byte_range:
  fixes x :: uint64
  assumes "1 \<le> n" "n \<le> 8" "unat x < 2 ^ (7 * n)"
  shows "256 - 2 ^ (9 - n) \<le> unat ((compact_bytes n x @ rest) ! 0)"
    and "unat ((compact_bytes n x @ rest) ! 0) < 256 - 2 ^ (8 - n)"
proof -
  have "9 - n = Suc (8 - n)" using assms(2) by simp
  then have a: "(2::nat) ^ (9 - n) = 2 * 2 ^ (8 - n)" by simp
  have "(2::nat) ^ (9 - n) \<le> 2 ^ 8"
    by (rule power_increasing) (use assms in simp_all)
  then have b: "(2::nat) ^ (9 - n) \<le> 256" by simp
  have c: "unat x div 2 ^ ((n - 1) * 8) < 2 ^ (8 - n)"
    using top_byte_unat(2) [OF assms] .
  show "256 - 2 ^ (9 - n) \<le> unat ((compact_bytes n x @ rest) ! 0)"
    unfolding compact_first_byte [OF assms] by simp
  show "unat ((compact_bytes n x @ rest) ! 0) < 256 - 2 ^ (8 - n)"
    unfolding compact_first_byte [OF assms] using a b c by linarith
qed

lemma Decode_compact:
  fixes x :: uint64
  assumes "1 \<le> n" "n \<le> 8" "unat x < 2 ^ (7 * n)"
  shows "ordUvarint64_Decode (compact_bytes n x @ rest) = Inr x"
proof -
  let ?buf = "compact_bytes n x @ rest"
  have lz: "LeadingZeros8 (NOT (?buf ! 0)) = int n - 1"
    using LeadingZeros8_not [OF assms(1,2) compact_first_byte_range [OF assms]] .
  have rB: "go_div ((int n - 1 + 1) * 7 + 8) 8 = int n"
  proof -
    have "(int n - 1 + 1) * 7 + 8 = int (n * 7 + 8)" by simp
    moreover have "(n * 7 + 8) div 8 = n" using assms(1,2) by simp
    ultimately show ?thesis
      by (simp add: go_div_nonneg zdiv_int del: of_nat_add of_nat_mult)
  qed
  have n63: "(int n - 1 + 1) * 7 \<noteq> 63" using assms(2) by simp
  have mask: "shl64 1 (go_uint ((int n - 1 + 1) * 7)) - 1 = mask (7 * n)"
  proof -
    have e: "(int n - 1 + 1) * 7 = int (7 * n)" by simp
    have l: "7 * n < 64" using assms(2) by simp
    then have "7 * n < 2 ^ 64" by simp
    then have g: "go_uint (int (7 * n)) = 7 * n" by (rule go_uint_nat)
    show ?thesis
      unfolding e g using l by (simp add: shl64_def mask_eq_exp_minus_1)
  qed
  have D: "ordUvarint64_Decode ?buf
      = Inr (ordUvarint64_Decode_loop ?buf (int n) (int n) 0 0 AND mask (7 * n))"
    unfolding ordUvarint64_Decode_def Let_def lz rB mask using n63 assms(1)
    by simp
  have "ordUvarint64_Decode_loop ?buf (int n) (int n) 0 0 AND mask (7 * n) = x"
  proof (rule bit_eqI)
    fix j
    have L: "bit (ordUvarint64_Decode_loop ?buf (int n) (int n) 0 0) j \<longleftrightarrow>
        (\<exists>k. k < n \<and> (n - 1 - k) * 8 \<le> j \<and> j < 64 \<and> bit (?buf ! k) (j - (n - 1 - k) * 8))"
      using Decode_loop_bit [OF refl refl assms(2), of 0 ?buf 0 j] by simp
    have nth: "k < n \<Longrightarrow> bit (?buf ! k) m \<longleftrightarrow>
        (k = 0 \<and> bit (ordUvarint64_header n) m) \<or> (m < 8 \<and> bit x ((n - k - 1) * 8 + m))" for k m
      by (simp add: nth_append compact_bytes_nth bit_or_iff bit_ucast_iff bit_drop_bit_eq)
    show "bit (ordUvarint64_Decode_loop ?buf (int n) (int n) 0 0 AND mask (7 * n)) j = bit x j"
    proof (cases "bit x j")
      case True
      then have j7: "j < 7 * n" using bit_imp_index_less [OF assms(3)] by blast
      then have j64: "j < 64" using assms(2) by simp
      define k where "k = n - 1 - j div 8"
      have kn: "k < n" using assms(1) unfolding k_def by simp
      have "j div 8 \<le> n - 1" using j7 assms(1) by simp
      then have e: "(n - 1 - k) * 8 = (j div 8) * 8" "(n - k - 1) * 8 = (j div 8) * 8"
        unfolding k_def by simp_all
      have le: "(n - 1 - k) * 8 \<le> j" unfolding e by simp
      have "j - (n - 1 - k) * 8 = j mod 8" unfolding e by (simp add: minus_div_mult_eq_mod)
      moreover have "(n - k - 1) * 8 + j mod 8 = j" unfolding e by simp
      ultimately have "bit (?buf ! k) (j - (n - 1 - k) * 8)"
        using nth [OF kn, of "j mod 8"] True by simp
      then have "bit (ordUvarint64_Decode_loop ?buf (int n) (int n) 0 0) j"
        unfolding L using kn le j64 by blast
      then show ?thesis using True j7 j64 by (simp add: bit_and_iff bit_mask_iff)
    next
      case False
      have "\<not> (j < 7 * n \<and> bit (ordUvarint64_Decode_loop ?buf (int n) (int n) 0 0) j)"
      proof
        assume a: "j < 7 * n \<and> bit (ordUvarint64_Decode_loop ?buf (int n) (int n) 0 0) j"
        then obtain k where k: "k < n" "(n - 1 - k) * 8 \<le> j"
            "bit (?buf ! k) (j - (n - 1 - k) * 8)"
          unfolding L by blast
        define m where "m = j - (n - 1 - k) * 8"
        have eq: "(n - k - 1) * 8 + m = j" using k(2) unfolding m_def by simp
        have "(k = 0 \<and> bit (ordUvarint64_header n) m) \<or> (m < 8 \<and> bit x ((n - k - 1) * 8 + m))"
          using nth [OF k(1), of m] k(3) unfolding m_def by blast
        then have k0: "k = 0" and hb: "bit (ordUvarint64_header n) m"
          using False unfolding eq by blast+
        have "9 - n \<le> m"
          using hb header_bit [OF assms(1,2), of m] by blast
        moreover have "(n - 1) * 8 + m = j" using eq k0 by simp
        ultimately show False using a assms(1,2) by linarith
      qed
      then show ?thesis using False by (auto simp: bit_and_iff bit_mask_iff)
    qed
  qed
  then show ?thesis using D by simp
qed

lemma BigEndian_Uint64_bytes:
  fixes x :: uint64
  shows "BigEndian_Uint64 ([ucast (drop_bit 56 x), ucast (drop_bit 48 x), ucast (drop_bit 40 x),
                  ucast (drop_bit 32 x), ucast (drop_bit 24 x), ucast (drop_bit 16 x),
                  ucast (drop_bit 8 x), ucast x :: byte] @ rest) = x"
proof (rule bit_eqI)
  fix j
  assume "possible_bit TYPE(uint64) j"
  then have j: "j < 64" by (simp add: possible_bit_def)
  then consider "j < 8" | "8 \<le> j" "j < 16" | "16 \<le> j" "j < 24" | "24 \<le> j" "j < 32"
    | "32 \<le> j" "j < 40" | "40 \<le> j" "j < 48" | "48 \<le> j" "j < 56" | "56 \<le> j" "j < 64"
    by linarith
  then show "bit (BigEndian_Uint64 ([ucast (drop_bit 56 x), ucast (drop_bit 48 x),
        ucast (drop_bit 40 x), ucast (drop_bit 32 x), ucast (drop_bit 24 x),
        ucast (drop_bit 16 x), ucast (drop_bit 8 x), ucast x :: byte] @ rest)) j = bit x j"
    by cases
      (auto simp add: BigEndian_Uint64_def bit_or_iff bit_push_bit_iff bit_ucast_iff
        bit_drop_bit_eq)
qed

lemma Decode_escape: "ordUvarint64_Decode (escape_bytes x @ rest) = Inr x"
proof -
  have "drop 1 (escape_bytes x @ rest) = [ucast (drop_bit 56 x), ucast (drop_bit 48 x),
      ucast (drop_bit 40 x), ucast (drop_bit 32 x), ucast (drop_bit 24 x),
      ucast (drop_bit 16 x), ucast (drop_bit 8 x), ucast x] @ rest"
    by (simp add: escape_bytes_def)
  then have "BigEndian_Uint64 (drop 1 (escape_bytes x @ rest)) = x"
    using BigEndian_Uint64_bytes [of x rest] by simp
  then have B: "BigEndian_Uint64 (drop 1 (escape_bytes x @ rest)) = x" .
  have "(escape_bytes x @ rest) ! 0 = 0xFF"
    by (simp add: escape_bytes_def)
  then have lz: "LeadingZeros8 (NOT ((escape_bytes x @ rest) ! 0)) = 8"
    using LeadingZeros8_not_FF by simp
  have len: "\<not> length (escape_bytes x @ rest) < 1" "\<not> length (escape_bytes x @ rest) < 9"
    by (simp_all add: escape_bytes_def)
  show ?thesis
    unfolding ordUvarint64_Decode_def Let_def lz B using len
    by simp
qed

section \<open>One item through the composer\<close>

lemma Encoding_Encode_single:
  "Encoding_Encode s [item] =
     (if Item_Size s item < 0 then None
      else Item_Encode s item (replicate (nat (Item_Size s item)) 0))"
  by (auto simp: Encoding_Encode_def Let_def split: option.splits)

lemma Encoding_Decode_single:
  "Encoding_Decode s [item] buf = Some (Item_Decode s item buf)"
  by (auto simp: Encoding_Decode_def split: prod.splits option.splits)

lemma ordUvarint64_Size_pos: "1 \<le> ordUvarint64_Size x"
proof (cases "2 ^ 56 \<le> x")
  case True
  then show ?thesis by (simp add: Size_escape)
next
  case False
  then have "x < 2 ^ 56" by simp
  then show ?thesis using Size_small [of x] by (metis of_nat_1 of_nat_le_iff)
qed

lemma ordUvarint64_Encode_bytes:
  "ordUvarint64_Encode x (replicate (nat (ordUvarint64_Size x)) 0) = Some (ordUvarint64_bytes x)"
proof (cases "2 ^ 56 \<le> x")
  case True
  then show ?thesis
    using Encode_escape [OF True] by (simp add: Size_escape ordUvarint64_bytes_def)
next
  case False
  then have lt: "x < 2 ^ 56" by simp
  have "ordUvarint64_Size x = int (nat (ordUvarint64_Size x))"
    using ordUvarint64_Size_pos [of x] by simp
  then show ?thesis
    using Encode_small [OF lt] False by (simp add: ordUvarint64_bytes_def)
qed

lemma ordUvarint64_bytes_length: "int (length (ordUvarint64_bytes x)) = ordUvarint64_Size x"
proof (cases "2 ^ 56 \<le> x")
  case True
  then show ?thesis by (simp add: Size_escape ordUvarint64_bytes_def escape_bytes_def)
next
  case False
  then show ?thesis using ordUvarint64_Size_pos [of x] by (simp add: ordUvarint64_bytes_def)
qed

lemma ordUvarint64_Decode_bytes: "ordUvarint64_Decode (ordUvarint64_bytes x @ rest) = Inr x"
proof (cases "2 ^ 56 \<le> x")
  case True
  then show ?thesis by (simp add: ordUvarint64_bytes_def Decode_escape)
next
  case False
  then have lt: "x < 2 ^ 56" by simp
  obtain n where n: "1 \<le> n" "n \<le> 8" "ordUvarint64_Size x = int n" "unat x < 2 ^ (7 * n)"
    using Size_small [OF lt] by metis
  then show ?thesis
    using False Decode_compact [OF n(1,2,4), of rest] by (simp add: ordUvarint64_bytes_def)
qed

text \<open>
  C1. For every \<open>uint64\<close> value \<open>x\<close>, encoding a cell that holds \<open>x\<close> with
  \<open>OrdUvarint64\<close> succeeds, and decoding the resulting bytes, whatever the cell holds
  by then, succeeds and writes exactly \<open>x\<close> into the cell.
\<close>

theorem ordUvarint64_roundtrip:
  "\<exists>b. Encoding_Encode (s\<lparr>uint64_cells := (uint64_cells s)(p := x)\<rparr>) [ordUvarint64 p]
         = Some (s\<lparr>uint64_cells := (uint64_cells s)(p := x)\<rparr>, b)
       \<and> ordUvarint64_Decode b = Inr x
       \<and> (\<forall>s'. Encoding_Decode s' [ordUvarint64 p] b
              = Some (None, s'\<lparr>uint64_cells := (uint64_cells s')(p := x)\<rparr>, b))"
proof -
  let ?b = "ordUvarint64_bytes x"
  have D: "ordUvarint64_Decode ?b = Inr x"
    using ordUvarint64_Decode_bytes [of x "[]"] by simp
  have "Encoding_Encode (s\<lparr>uint64_cells := (uint64_cells s)(p := x)\<rparr>) [ordUvarint64 p]
         = Some (s\<lparr>uint64_cells := (uint64_cells s)(p := x)\<rparr>, ?b)"
    using ordUvarint64_Size_pos [of x]
    by (simp add: Encoding_Encode_single ordUvarint64_Encode_bytes)
  moreover have "Encoding_Decode s' [ordUvarint64 p] ?b
              = Some (None, s'\<lparr>uint64_cells := (uint64_cells s')(p := x)\<rparr>, ?b)" for s'
    by (simp add: Encoding_Decode_single D)
  ultimately show ?thesis using D by blast
qed

section \<open>Size boundaries and the escape threshold\<close>

lemma Size_examples:
  "ordUvarint64_Size 127 = 1" "ordUvarint64_Size 128 = 2"
  "ordUvarint64_Size (2 ^ 56 - 1) = 8" "ordUvarint64_Size (2 ^ 56) = 9"
  by (simp_all add: ordUvarint64_Size_def Len64_def bit_length.simps go_div_def)

lemma Encode_127: "ordUvarint64_Encode 127 (replicate 1 0) = Some [0x7F]"
proof -
  have "compact_bytes 1 127 = [0x7F]"
    by (simp add: compact_bytes_def ordUvarint64_header_def)
  moreover have "(127 :: uint64) < 2 ^ 56" by simp
  ultimately show ?thesis
    using Encode_small [of 127 1] Size_examples(1) by simp
qed

lemma Encode_128: "ordUvarint64_Encode 128 (replicate 2 0) = Some [0x80, 0x80]"
proof -
  have "compact_bytes 2 128 = [0x80, 0x80]"
    by (simp add: compact_bytes_def ordUvarint64_header_def upt_rec mask_numeral)
  moreover have "(128 :: uint64) < 2 ^ 56" by simp
  ultimately show ?thesis
    using Encode_small [of 128 2] Size_examples(2) by simp
qed

lemma Encode_below_threshold:
  "ordUvarint64_Encode (2 ^ 56 - 1) (replicate 8 0)
     = Some [0xFE, 0xFF, 0xFF, 0xFF, 0xFF, 0xFF, 0xFF, 0xFF]"
proof -
  have "compact_bytes 8 (2 ^ 56 - 1) = [0xFE, 0xFF, 0xFF, 0xFF, 0xFF, 0xFF, 0xFF, 0xFF]"
    by (simp add: compact_bytes_def ordUvarint64_header_def upt_rec mask_numeral)
  moreover have "(2 ^ 56 - 1 :: uint64) < 2 ^ 56" by simp
  ultimately show ?thesis
    using Encode_small [of "2 ^ 56 - 1" 8] Size_examples(3) by simp
qed

lemma Encode_at_threshold:
  "ordUvarint64_Encode (2 ^ 56) (replicate 9 0) = Some [0xFF, 1, 0, 0, 0, 0, 0, 0, 0]"
proof -
  have "escape_bytes (2 ^ 56) = [0xFF, 1, 0, 0, 0, 0, 0, 0, 0]"
    by (simp add: escape_bytes_def)
  then show ?thesis using Encode_escape [of "2 ^ 56"] by simp
qed

lemma Size_nine_iff: "ordUvarint64_Size x = 9 \<longleftrightarrow> 2 ^ 56 \<le> x"
proof
  assume nine: "ordUvarint64_Size x = 9"
  show "2 ^ 56 \<le> x"
  proof (rule ccontr)
    assume "\<not> 2 ^ 56 \<le> x"
    then have "x < 2 ^ 56" by simp
    then obtain n where "n \<le> 8" "ordUvarint64_Size x = int n"
      using Size_small [of x] by metis
    then show False using nine by simp
  qed
next
  assume "2 ^ 56 \<le> x"
  then show "ordUvarint64_Size x = 9" by (rule Size_escape)
qed

lemma first_byte_FF_iff:
  "map_option hd (ordUvarint64_Encode x (replicate (nat (ordUvarint64_Size x)) 0)) = Some 0xFF
     \<longleftrightarrow> 2 ^ 56 \<le> x"
proof (cases "2 ^ 56 \<le> x")
  case True
  then show ?thesis
    by (simp add: ordUvarint64_Encode_bytes ordUvarint64_bytes_def escape_bytes_def)
next
  case False
  then have lt: "x < 2 ^ 56" by simp
  obtain n where n: "1 \<le> n" "n \<le> 8" "ordUvarint64_Size x = int n" "unat x < 2 ^ (7 * n)"
    using Size_small [OF lt] by metis
  have "unat ((compact_bytes n x @ []) ! 0) < 256 - 2 ^ (8 - n)"
    by (rule compact_first_byte_range(2) [OF n(1,2,4)])
  then have r: "unat (compact_bytes n x ! 0) < 256 - 2 ^ (8 - n)" by simp
  have p: "(1::nat) \<le> 2 ^ (8 - n)" by simp
  have "unat (compact_bytes n x ! 0) < 255" using r p by linarith
  then have "compact_bytes n x ! 0 \<noteq> 0xFF" by auto
  moreover have "hd (compact_bytes n x) = compact_bytes n x ! 0"
  proof (rule hd_conv_nth)
    show "compact_bytes n x \<noteq> []" using n(1) by (auto simp: compact_bytes_def)
  qed
  moreover have "ordUvarint64_Encode x (replicate (nat (ordUvarint64_Size x)) 0)
      = Some (compact_bytes n x)"
    using ordUvarint64_Encode_bytes [of x] False n(3) by (simp add: ordUvarint64_bytes_def)
  ultimately show ?thesis
    using False by simp
qed

text \<open>
  C3. The encoding of 127 takes one byte, that of 128 two bytes, that of \<open>2^56 - 1\<close>
  eight bytes and that of \<open>2^56\<close> nine bytes, the first of them \<open>0xFF\<close>. The escape
  branch (\<open>l > 56\<close>) is taken exactly for the values from \<open>2^56\<close> on: exactly those have
  size 9 and exactly those encodings start with \<open>0xFF\<close>.
\<close>

theorem ordUvarint64_size_boundaries:
  "ordUvarint64_Size 127 = 1
   \<and> ordUvarint64_Encode 127 (replicate 1 0) = Some [0x7F]
   \<and> ordUvarint64_Size 128 = 2
   \<and> ordUvarint64_Encode 128 (replicate 2 0) = Some [0x80, 0x80]
   \<and> ordUvarint64_Size (2 ^ 56 - 1) = 8
   \<and> ordUvarint64_Encode (2 ^ 56 - 1) (replicate 8 0)
       = Some [0xFE, 0xFF, 0xFF, 0xFF, 0xFF, 0xFF, 0xFF, 0xFF]
   \<and> ordUvarint64_Size (2 ^ 56) = 9
   \<and> ordUvarint64_Encode (2 ^ 56) (replicate 9 0) = Some [0xFF, 1, 0, 0, 0, 0, 0, 0, 0]
   \<and> (\<forall>x. (56 < Len64 x) = (2 ^ 56 \<le> x))
   \<and> (\<forall>x. (ordUvarint64_Size x = 9) = (2 ^ 56 \<le> x))
   \<and> (\<forall>x. (map_option hd (ordUvarint64_Encode x (replicate (nat (ordUvarint64_Size x)) 0))
           = Some 0xFF) = (2 ^ 56 \<le> x))"
  using Size_examples Encode_127 Encode_128 Encode_below_threshold Encode_at_threshold
    Len64_escape_iff Size_nine_iff first_byte_FF_iff
  by (intro conjI allI)

section \<open>Lexicographic order of encodings\<close>

lemma be_val_less: "be_val xs < 256 ^ length xs"
proof (induction xs)
  case Nil
  show ?case by simp
next
  case (Cons x xs)
  define P :: nat where "P = 256 ^ length xs"
  have "unat x < 256" using unsigned_less [of x] by simp
  then have "unat x + 1 \<le> 256" by simp
  then have "(unat x + 1) * P \<le> 256 * P"
    by (rule mult_le_mono1)
  moreover have "(unat x + 1) * P = unat x * P + P" by (simp add: algebra_simps)
  moreover have "be_val xs < P" using Cons.IH unfolding P_def .
  ultimately have "unat x * P + be_val xs < 256 * P" by linarith
  then show ?case unfolding P_def by simp
qed

lemma bytes_Compare_be_val:
  "length xs = length ys \<Longrightarrow> be_val xs < be_val ys \<Longrightarrow> bytes_Compare xs ys = - 1"
proof (induction xs ys rule: list_induct2)
  case Nil
  then show ?case by simp
next
  case (Cons x xs y ys)
  show ?case
  proof (cases "x < y")
    case True
    then show ?thesis by simp
  next
    case False
    have "\<not> y < x"
    proof
      assume "y < x"
      then have "unat y + 1 \<le> unat x" by (simp add: word_less_nat_alt)
      define P :: nat where "P = 256 ^ length xs"
      have "(unat y + 1) * P \<le> unat x * P"
        using \<open>unat y + 1 \<le> unat x\<close> by (rule mult_le_mono1)
      moreover have "(unat y + 1) * P = unat y * P + P" by (simp add: algebra_simps)
      moreover have "be_val ys < P"
        using be_val_less [of ys] Cons.hyps unfolding P_def by simp
      ultimately have "unat y * P + be_val ys < unat x * P + be_val xs" by linarith
      then have "be_val (y # ys) < be_val (x # xs)"
        using Cons.hyps unfolding P_def by simp
      then show False using Cons.prems by simp
    qed
    then have eq: "x = y" using False by simp
    then have "be_val xs < be_val ys" using Cons.prems Cons.hyps by simp
    then show ?thesis using Cons.IH eq by simp
  qed
qed

lemma bytes_Compare_first:
  "x < y \<Longrightarrow> bytes_Compare (x # xs) (y # ys) = - 1"
  by simp

lemma be_val_big_endian:
  fixes x :: uint64
  assumes "n \<le> 8"
  shows "i \<le> n \<Longrightarrow>
    be_val (map (\<lambda>k. ucast (drop_bit ((n - k - 1) * 8) x) :: byte) [i..<n])
      = unat x mod 256 ^ (n - i)"
proof (induction "n - i" arbitrary: i)
  case 0
  then show ?case by simp
next
  case (Suc d)
  then have lt: "i < n" by simp
  define m where "m = n - i - 1"
  define P :: nat where "P = 256 ^ m"
  let ?f = "\<lambda>k. ucast (drop_bit ((n - k - 1) * 8) x) :: byte"
  have ni: "n - i = Suc m" using lt unfolding m_def by simp
  have ni': "n - (i + 1) = m" using lt unfolding m_def by simp
  have u: "[i..<n] = i # [i + 1..<n]" using lt by (simp add: upt_conv_Cons)
  have "d = n - (i + 1)" using Suc.hyps(2) by simp
  moreover have "i + 1 \<le> n" using lt by simp
  ultimately have "be_val (map ?f [i + 1..<n]) = unat x mod 256 ^ (n - (i + 1))"
    by (rule Suc.hyps(1))
  then have IH: "be_val (map ?f [i + 1..<n]) = unat x mod P"
    unfolding ni' P_def .
  have len: "length (map ?f [i + 1..<n]) = m" using ni' by simp
  have byte: "unat (?f i) = unat x div P mod 256"
  proof -
    have "unat (ucast (drop_bit (m * 8) x) :: byte) = take_bit 8 (drop_bit (m * 8) (unat x))"
      by (simp add: unsigned_ucast_eq unat_drop_bit_eq)
    also have "\<dots> = unat x div 2 ^ (m * 8) mod 2 ^ 8"
      by (simp only: take_bit_eq_mod drop_bit_eq_div)
    also have "(2::nat) ^ (m * 8) = (2 ^ 8) ^ m"
      by (metis mult.commute power_mult)
    finally show ?thesis unfolding P_def m_def by simp
  qed
  have "be_val (map ?f [i..<n]) = unat (?f i) * 256 ^ m + be_val (map ?f [i + 1..<n])"
    unfolding u list.map be_val.simps len ..
  also have "\<dots> = unat x div P mod 256 * P + unat x mod P"
    unfolding byte IH P_def ..
  also have "\<dots> = unat x mod (P * 256)"
    by (simp only: mod_mult2_eq mult.commute add.commute)
  also have "P * 256 = 256 ^ (n - i)"
    unfolding ni P_def by simp
  finally show ?case .
qed

end
